theory Spec2Isabelle
  imports Main "HOL-Library.AList" "HOL-Library.Sublist"
begin

section \<open>Organization records and the hierarchy builder\<close>

text \<open>
  An organization record of the registry, as \<open>_fetch_hierarchy_from_api\<close> reads it: the
  keys \<open>code\<close> and \<open>preferredLabel\<close> are always present, \<open>subOrganizationOf\<close> is read with
  \<open>dict.get\<close> and may be missing (\<open>None\<close>).
\<close>

record org =
  code :: string
  preferredLabel :: string
  subOrganizationOf :: "string option"

text \<open>
  \<open>parent_children_orgs\<close> is a Python dict from a parent code to a one-entry dict
  \<open>{label: [children]}\<close>. A Python dict keeps its keys in insertion order and a store under
  an existing key keeps the key's position: this is \<open>AList.update\<close> on an association list.
  The one-entry dict is the pair of its key and its value.
\<close>

type_synonym node = "string \<times> string list"
type_synonym nodes = "(string \<times> node) list"

text \<open>The inner loop \<open>for org2 in all_orgs: if org2['code'] == parent_code: ... break\<close>.\<close>

definition find_parent :: "org list \<Rightarrow> string \<Rightarrow> org option" where
  "find_parent all_orgs parent_code = find (\<lambda>org2. code org2 = parent_code) all_orgs"

text \<open>One iteration of the outer loop \<open>for org_dict in all_orgs\<close>.\<close>

definition hierarchy_step :: "org list \<Rightarrow> nodes \<Rightarrow> org \<Rightarrow> nodes" where
  "hierarchy_step all_orgs parent_children_orgs org_dict =
     (case subOrganizationOf org_dict of
        None \<Rightarrow>
          (if map_of parent_children_orgs (code org_dict) = None
           then AList.update (code org_dict) (preferredLabel org_dict, []) parent_children_orgs
           else parent_children_orgs)
      | Some parent_code \<Rightarrow>
          (case map_of parent_children_orgs parent_code of
             None \<Rightarrow>
               (case find_parent all_orgs parent_code of
                  None \<Rightarrow> parent_children_orgs
                | Some org2 \<Rightarrow>
                    AList.update parent_code
                      (preferredLabel org2, [preferredLabel org_dict]) parent_children_orgs)
           | Some (label, children) \<Rightarrow>
               AList.update parent_code
                 (label, children @ [preferredLabel org_dict]) parent_children_orgs))"

definition parent_children :: "org list \<Rightarrow> org list \<Rightarrow> nodes" where
  "parent_children all_orgs orgs = foldl (hierarchy_step all_orgs) [] orgs"

text \<open>
  The second loop: \<open>hierarchy[label] = children\<close> for every node in insertion order; a later
  node with the same label overwrites the children stored by an earlier one.
\<close>

definition hierarchy_of :: "nodes \<Rightarrow> (string \<times> string list) list" where
  "hierarchy_of parent_children_orgs =
     foldl (\<lambda>hierarchy entry. AList.update (fst (snd entry)) (snd (snd entry)) hierarchy)
       [] parent_children_orgs"

definition fetch_hierarchy :: "org list \<Rightarrow> (string \<times> string list) list" where
  "fetch_hierarchy all_orgs = hierarchy_of (parent_children all_orgs all_orgs)"

text \<open>The hierarchy as a list of (parent name, child name) pairs.\<close>

fun hierarchy_pairs :: "(string \<times> string list) list \<Rightarrow> (string \<times> string) list" where
  "hierarchy_pairs [] = []"
| "hierarchy_pairs ((parent, children) # rest) = map (Pair parent) children @ hierarchy_pairs rest"

definition org_codes :: "org list \<Rightarrow> string set" where
  "org_codes all_orgs = code ` set all_orgs"

section \<open>Strings\<close>

text \<open>
  A Python \<open>str\<close> is modelled as a list of Isabelle characters. The Greek literals of the
  source are carried in their UTF-8 encoding, as they stand in the source file. The
  character classes below are Python's on ASCII; a digit or a white-space character
  outside ASCII is not recognised by the model.
\<close>

text \<open>\<open>sub in s\<close> on strings.\<close>

fun str_in :: "string \<Rightarrow> string \<Rightarrow> bool" where
  "str_in sub [] = (sub = [])"
| "str_in sub (c # cs) = (prefix sub (c # cs) \<or> str_in sub cs)"

text \<open>
  \<open>s.replace(old, new)\<close>: the occurrences of \<open>old\<close> are replaced from the left and do not
  overlap. For an empty \<open>old\<close> Python puts \<open>new\<close> before every character and at the end.
\<close>

fun replace_nonempty :: "string \<Rightarrow> string \<Rightarrow> string \<Rightarrow> string" where
  "replace_nonempty old new [] = []"
| "replace_nonempty old new (c # cs) =
     (if prefix old (c # cs) then new @ replace_nonempty old new (drop (length old - 1) cs)
      else c # replace_nonempty old new cs)"

definition str_replace :: "string \<Rightarrow> string \<Rightarrow> string \<Rightarrow> string" where
  "str_replace s old new =
     (if old = [] then new @ concat (map (\<lambda>c. c # new) s) else replace_nonempty old new s)"

text \<open>\<open>str.isspace\<close> and \<open>str.isdigit\<close> on ASCII, and \<open>s.strip()\<close>.\<close>

definition isspace :: "char \<Rightarrow> bool" where
  "isspace c \<longleftrightarrow> c \<in> set [CHR 0x09, CHR 0x0A, CHR 0x0B, CHR 0x0C, CHR 0x0D,
                          CHR 0x1C, CHR 0x1D, CHR 0x1E, CHR 0x1F, CHR '' '']"


definition strip :: "string \<Rightarrow> string" where
  "strip s = rev (dropWhile isspace (rev (dropWhile isspace s)))"




section \<open>Constants of the class\<close>

definition CATEGORY_PREFIX :: string where
  "CATEGORY_PREFIX = ''[[Category:''"

text \<open>\<open>TEMPLATE_NAME\<close>: the six Greek letters U+03A6 U+03BF U+03C1 U+03AD U+03B1 U+03C2.\<close>

definition TEMPLATE_NAME :: string where
  "TEMPLATE_NAME = [CHR 0xCE, CHR 0xA6, CHR 0xCE, CHR 0xBF, CHR 0xCF, CHR 0x81,
                    CHR 0xCE, CHR 0xAD, CHR 0xCE, CHR 0xB1, CHR 0xCF, CHR 0x82]"





section \<open>The wiki store\<close>

text \<open>
  Modelled from the spec: the wiki client (\<open>diavlos.src.site.Site\<close> and the page objects it
  returns) is not among the sources. The spec describes it as a store of pages by title
  with \<open>exists\<close>, \<open>text()\<close>, \<open>edit\<close> and \<open>delete\<close>. A page object carries, besides its state,
  the texts written to it by \<open>edit\<close> and the number of \<open>delete\<close> calls made on it, so that
  "no write" is a statement about the state.
\<close>

record page =
  page_exists :: bool
  page_text :: string
  edits :: "string list"
  deletions :: nat

text \<open>
  Modelled from the spec: \<open>page.text()\<close> is the text of an existing page and the empty
  string for a missing one; \<open>page.edit\<close> sets the text and makes the page exist;
  \<open>page.delete\<close> removes the page.
\<close>

definition text_of :: "page \<Rightarrow> string" where
  "text_of p = (if page_exists p then page_text p else [])"

definition edit :: "page \<Rightarrow> string \<Rightarrow> page" where
  "edit p new_text = p\<lparr>page_exists := True, page_text := new_text, edits := edits p @ [new_text]\<rparr>"


text \<open>
  Modelled from the spec: a page handle is the key of the page in the store,
  \<open>site.pages(name)\<close> or \<open>site.categories[name]\<close>. A lookup may raise; which lookups do is
  part of the store.
\<close>

datatype page_ref = PageRef string | CategoryRef string

record wiki =
  pages :: "page_ref \<Rightarrow> page"
  lookup_fails :: "page_ref \<Rightarrow> bool"

text \<open>\<open>_get_site_page\<close>: any exception of the lookup is caught and \<open>None\<close> is returned.\<close>

definition get_site_page :: "wiki \<Rightarrow> string \<Rightarrow> bool \<Rightarrow> page_ref option" where
  "get_site_page site name is_category =
     (let ref = (if is_category then CategoryRef name else PageRef name)
      in if lookup_fails site ref then None else Some ref)"

section \<open>The idempotent write rule\<close>

text \<open>
  The value of \<open>new_text\<close> when \<open>_add_text_to_page\<close> reaches \<open>if new_text is not None\<close>, for a
  page that is not \<open>None\<close>.
\<close>

definition new_text_for :: "page \<Rightarrow> string \<Rightarrow> string option \<Rightarrow> string option" where
  "new_text_for p text replace_text =
     (if page_exists p then
        (let ptext = text_of p in
         if replace_text \<noteq> None \<and> str_in (the replace_text) ptext
         then Some (str_replace ptext (the replace_text) text)
         else if \<not> str_in CATEGORY_PREFIX ptext then Some text
         else None)
      else Some text)"

text \<open>The body of \<open>_add_text_to_page\<close> under \<open>if page is not None\<close>, on the page object.\<close>

definition add_text :: "page \<Rightarrow> string \<Rightarrow> string option \<Rightarrow> page" where
  "add_text p text replace_text =
     (case new_text_for p text replace_text of
        None \<Rightarrow> p
      | Some new_text \<Rightarrow> edit p new_text)"

text \<open>\<open>_add_text_to_page(page, text, replace_text)\<close> on the store, \<open>page\<close> a handle or \<open>None\<close>.\<close>

definition add_text_to_page :: "wiki \<Rightarrow> page_ref option \<Rightarrow> string \<Rightarrow> string option \<Rightarrow> wiki" where
  "add_text_to_page site page text replace_text =
     (case page of
        None \<Rightarrow> site
      | Some ref \<Rightarrow> site\<lparr>pages := (pages site)(ref := add_text (pages site ref) text replace_text)\<rparr>)"

section \<open>Template values and the page-text merge\<close>




text \<open>
  The regular expression of \<open>update_pages\<close> is \<open>{{NAME[^{}]+}}\<close> with \<open>NAME\<close> the template
  name. \<open>match_template s\<close> is the rest of \<open>s\<close> after a match that starts at the first
  character of \<open>s\<close>, if there is one: the class \<open>[^{}]+\<close> must take the whole run of
  characters other than braces, since a shorter run is followed by a character that is not
  a closing brace.
\<close>

definition template_open :: string where
  "template_open = ''{{'' @ TEMPLATE_NAME"

definition nonbrace :: "char \<Rightarrow> bool" where
  "nonbrace c \<longleftrightarrow> c \<noteq> CHR ''{'' \<and> c \<noteq> CHR ''}''"

definition match_template :: "string \<Rightarrow> string option" where
  "match_template s =
     (if prefix template_open s then
        (let rest = drop (length template_open) s;
             body = takeWhile nonbrace rest;
             after = dropWhile nonbrace rest
         in if body \<noteq> [] \<and> prefix ''}}'' after then Some (drop 2 after) else None)
      else None)"

text \<open>
  \<open>re.sub(pattern, '', page_text)\<close>: all matches are removed, found from the left, each
  search starting where the previous match ended. A match is never empty.
\<close>

function re_sub_template :: "string \<Rightarrow> string" where
  "re_sub_template [] = []"
| "re_sub_template (c # cs) =
     (case match_template (c # cs) of
        Some rest \<Rightarrow> re_sub_template rest
      | None \<Rightarrow> c # re_sub_template cs)"
  by pat_completeness auto
termination
proof (relation "measure length")
  show "wf (measure length)" by simp
next
  fix c :: char and cs rest :: string
  assume m: "match_template (c # cs) = Some rest"
  let ?r = "drop (length template_open) (c # cs)"
  from m have "rest = drop 2 (dropWhile nonbrace ?r)" and "prefix template_open (c # cs)"
    by (auto simp: match_template_def Let_def split: if_splits)
  moreover have "length (dropWhile nonbrace ?r) \<le> length ?r"
    by (rule length_dropWhile_le)
  moreover have "length ?r < length (c # cs)"
    by (simp add: template_open_def)
  ultimately have "length rest < length (c # cs)" by simp
  then show "(rest, c # cs) \<in> measure length" by simp
next
  fix c :: char and cs :: string
  show "(cs, c # cs) \<in> measure length" by simp
qed

text \<open>The three assignments of \<open>update_pages\<close> that compute the new text of a page.\<close>

definition page_text_leftovers :: "string \<Rightarrow> string" where
  "page_text_leftovers ptext = strip (re_sub_template ptext)"

definition new_page_text :: "string \<Rightarrow> string \<Rightarrow> string" where
  "new_page_text new_template_text ptext =
     new_template_text @ [CHR 0x0A] @ page_text_leftovers ptext"

text \<open>
  The body of the loop of \<open>update_pages\<close> for one organization, on the page object:
  \<open>page\<close> is the result of \<open>_get_site_page\<close>, \<open>new_template_text\<close> the rendered template.
\<close>

definition update_page :: "bool \<Rightarrow> page option \<Rightarrow> string \<Rightarrow> page option" where
  "update_page force_create pg new_template_text =
     (case pg of
        None \<Rightarrow> None
      | Some p \<Rightarrow>
          (if force_create \<or> page_exists p
           then Some (edit p (new_page_text new_template_text (text_of p)))
           else Some p))"




section \<open>The detail fetcher\<close>
















section \<open>The pruner\<close>








section \<open>Invariant of the hierarchy loop\<close>

text \<open>
  What holds of \<open>parent_children_orgs\<close> after the outer loop has processed the records
  \<open>xs\<close>: the keys are distinct; a code without node is the code of no processed root and
  the parent code of no processed child, unless no record carries it; a node belongs to a
  record with its code and label that is a root or some record's parent, and its children
  are the labels of the processed records that name the code as parent, in order.
\<close>

definition nodes_inv :: "org list \<Rightarrow> org list \<Rightarrow> nodes \<Rightarrow> bool" where
  "nodes_inv all_orgs xs pco \<longleftrightarrow>
     distinct (map fst pco) \<and>
     (\<forall>c. map_of pco c = None \<longrightarrow>
        (\<forall>x\<in>set xs. (subOrganizationOf x = None \<longrightarrow> code x \<noteq> c) \<and>
                     (subOrganizationOf x = Some c \<longrightarrow> c \<notin> org_codes all_orgs))) \<and>
     (\<forall>c l cs. map_of pco c = Some (l, cs) \<longrightarrow>
        (\<exists>y\<in>set all_orgs. code y = c \<and> preferredLabel y = l \<and>
           (subOrganizationOf y = None \<or> (\<exists>z\<in>set all_orgs. subOrganizationOf z = Some c))) \<and>
        cs = map preferredLabel (filter (\<lambda>z. subOrganizationOf z = Some c) xs))"

section \<open>The hierarchy builder: proofs\<close>

lemma find_parent_None: "find_parent all_orgs c = None \<longleftrightarrow> c \<notin> org_codes all_orgs"
  by (auto simp: find_parent_def org_codes_def find_None_iff)

lemma find_parent_Some:
  "find_parent all_orgs c = Some y \<Longrightarrow> y \<in> set all_orgs \<and> code y = c"
  unfolding find_parent_def by (induction all_orgs) (auto split: if_splits)

lemma nodes_inv_Nil: "nodes_inv all_orgs [] []"
  by (simp add: nodes_inv_def)

lemma nodes_inv_step:
  assumes "nodes_inv all_orgs xs pco" and "x \<in> set all_orgs"
  shows "nodes_inv all_orgs (xs @ [x]) (hierarchy_step all_orgs pco x)"
proof (cases "subOrganizationOf x")
  case None
  show ?thesis
  proof (cases "map_of pco (code x)")
    case N: None
    from assms(2) have cin: "code x \<in> org_codes all_orgs" by (auto simp: org_codes_def)
    have step: "hierarchy_step all_orgs pco x = AList.update (code x) (preferredLabel x, []) pco"
      using None N by (simp add: hierarchy_step_def)
    from cin N None assms show ?thesis
      unfolding nodes_inv_def step
      by (auto simp: update_conv' distinct_update filter_empty_conv)
  next
    case (Some a)
    have step: "hierarchy_step all_orgs pco x = pco"
      using None Some by (simp add: hierarchy_step_def)
    from Some None assms show ?thesis
      unfolding nodes_inv_def step by auto
  qed
next
  case (Some p)
  show ?thesis
  proof (cases "map_of pco p")
    case N: None
    show ?thesis
    proof (cases "find_parent all_orgs p")
      case NN: None
      have step: "hierarchy_step all_orgs pco x = pco"
        using Some N NN by (simp add: hierarchy_step_def)
      from NN have "p \<notin> org_codes all_orgs" by (simp add: find_parent_None)
      with N Some assms show ?thesis
        unfolding nodes_inv_def step by auto
    next
      case S: (Some y)
      have step: "hierarchy_step all_orgs pco x =
          AList.update p (preferredLabel y, [preferredLabel x]) pco"
        using Some N S by (simp add: hierarchy_step_def)
      from find_parent_Some[OF S] have y: "y \<in> set all_orgs" "code y = p" by auto
      then have pin: "p \<in> org_codes all_orgs" by (auto simp: org_codes_def)
      from pin N Some assms y show ?thesis
        unfolding nodes_inv_def step
        by (auto simp: update_conv' distinct_update filter_empty_conv)
    qed
  next
    case S: (Some a)
    obtain l cs where a: "a = (l, cs)" by (cases a)
    have step: "hierarchy_step all_orgs pco x =
          AList.update p (l, cs @ [preferredLabel x]) pco"
      using Some S a by (simp add: hierarchy_step_def)
    from a S Some assms show ?thesis
      unfolding nodes_inv_def step
      by (auto simp: update_conv' distinct_update)
  qed
qed

lemma nodes_inv_foldl:
  "nodes_inv all_orgs xs pco \<Longrightarrow> set ys \<subseteq> set all_orgs \<Longrightarrow>
   nodes_inv all_orgs (xs @ ys) (foldl (hierarchy_step all_orgs) pco ys)"
proof (induction ys arbitrary: xs pco)
  case Nil
  then show ?case by simp
next
  case (Cons y ys)
  from Cons.prems have "nodes_inv all_orgs (xs @ [y]) (hierarchy_step all_orgs pco y)"
    by (intro nodes_inv_step) auto
  from Cons.IH[OF this] Cons.prems(2) show ?case by simp
qed

lemma nodes_inv_parent_children:
  "nodes_inv all_orgs all_orgs (parent_children all_orgs all_orgs)"
  using nodes_inv_foldl[OF nodes_inv_Nil, of all_orgs all_orgs]
  by (simp add: parent_children_def)

lemma nodes_inv_entry:
  assumes "nodes_inv all_orgs xs pco" and "(c, l, cs) \<in> set pco"
  shows "(\<exists>y\<in>set all_orgs. code y = c \<and> preferredLabel y = l \<and>
           (subOrganizationOf y = None \<or> (\<exists>z\<in>set all_orgs. subOrganizationOf z = Some c))) \<and>
        cs = map preferredLabel (filter (\<lambda>z. subOrganizationOf z = Some c) xs)"
proof -
  from assms have "map_of pco c = Some (l, cs)" by (simp add: nodes_inv_def)
  with assms(1) show ?thesis unfolding nodes_inv_def by blast
qed

lemma nodes_inv_registered:
  assumes "nodes_inv all_orgs xs pco" and "z \<in> set xs" and "subOrganizationOf z = Some c"
    and "c \<in> org_codes all_orgs"
  shows "\<exists>l cs. (c, l, cs) \<in> set pco"
proof -
  from assms have "map_of pco c \<noteq> None" unfolding nodes_inv_def by blast
  then obtain l cs where "map_of pco c = Some (l, cs)" by auto
  then show ?thesis by (blast dest: map_of_SomeD)
qed

text \<open>The second loop: the last node stored under a label wins.\<close>

lemma map_of_foldl_update:
  "map_of (foldl (\<lambda>hierarchy entry. AList.update (fst (snd entry)) (snd (snd entry)) hierarchy)
             h pco) l
   = (case map_of (rev (map snd pco)) l of Some cs \<Rightarrow> Some cs | None \<Rightarrow> map_of h l)"
proof (induction pco arbitrary: h)
  case Nil
  then show ?case by simp
next
  case (Cons e es)
  show ?case
    by (simp add: Cons.IH update_conv' map_add_def split: option.splits)
qed

lemma map_of_hierarchy_of:
  "map_of (hierarchy_of pco) l = map_of (rev (map snd pco)) l"
  by (simp add: hierarchy_of_def map_of_foldl_update split: option.splits)

lemma distinct_foldl_update:
  "distinct (map fst h) \<Longrightarrow>
   distinct (map fst (foldl (\<lambda>hierarchy entry.
      AList.update (fst (snd entry)) (snd (snd entry)) hierarchy) h pco))"
  by (induction pco arbitrary: h) (simp_all add: distinct_update)

lemma distinct_hierarchy_of: "distinct (map fst (hierarchy_of pco))"
  by (simp add: hierarchy_of_def distinct_foldl_update)

lemma hierarchy_of_entry:
  assumes "(l, cs) \<in> set (hierarchy_of pco)"
  shows "\<exists>c. (c, l, cs) \<in> set pco"
proof -
  from assms have "map_of (hierarchy_of pco) l = Some cs"
    by (simp add: distinct_hierarchy_of)
  then have "map_of (rev (map snd pco)) l = Some cs"
    by (simp add: map_of_hierarchy_of)
  then have "(l, cs) \<in> set (rev (map snd pco))"
    by (rule map_of_SomeD)
  then show ?thesis by auto
qed

lemma hierarchy_of_lookup:
  assumes "distinct (map (\<lambda>e. fst (snd e)) pco)" and "(c, l, cs) \<in> set pco"
  shows "(l, cs) \<in> set (hierarchy_of pco)"
proof -
  have "map fst (rev (map snd pco)) = rev (map (\<lambda>e. fst (snd e)) pco)"
    by (simp add: rev_map)
  with assms(1) have "distinct (map fst (rev (map snd pco)))" by simp
  moreover from assms(2) have "(l, cs) \<in> set (rev (map snd pco))" by force
  ultimately have "map_of (rev (map snd pco)) l = Some cs" by (rule map_of_is_SomeI)
  then have "map_of (hierarchy_of pco) l = Some cs" by (simp add: map_of_hierarchy_of)
  then show ?thesis by (rule map_of_SomeD)
qed

lemma set_hierarchy_pairs:
  "set (hierarchy_pairs h) = {(p, ch). \<exists>cs. (p, cs) \<in> set h \<and> ch \<in> set cs}"
  by (induction h rule: hierarchy_pairs.induct) auto

lemma pairs_subset:
  "set (hierarchy_pairs (fetch_hierarchy all_orgs))
     \<subseteq> {(preferredLabel y, preferredLabel z) | y z.
          y \<in> set all_orgs \<and> z \<in> set all_orgs \<and> subOrganizationOf z = Some (code y)}"
proof
  fix pr assume "pr \<in> set (hierarchy_pairs (fetch_hierarchy all_orgs))"
  then obtain l ch cs where pr: "pr = (l, ch)"
    and in_h: "(l, cs) \<in> set (fetch_hierarchy all_orgs)" and ch: "ch \<in> set cs"
    by (auto simp: set_hierarchy_pairs)
  from in_h obtain c where e: "(c, l, cs) \<in> set (parent_children all_orgs all_orgs)"
    unfolding fetch_hierarchy_def by (blast dest: hierarchy_of_entry)
  from nodes_inv_entry[OF nodes_inv_parent_children e]
  obtain y where y: "y \<in> set all_orgs" "code y = c" "preferredLabel y = l"
    and cs: "cs = map preferredLabel (filter (\<lambda>z. subOrganizationOf z = Some c) all_orgs)"
    by blast
  from ch cs obtain z where
    "z \<in> set all_orgs" "subOrganizationOf z = Some c" "ch = preferredLabel z"
    by auto
  with y pr show "pr \<in> {(preferredLabel y, preferredLabel z) | y z.
          y \<in> set all_orgs \<and> z \<in> set all_orgs \<and> subOrganizationOf z = Some (code y)}"
    by blast
qed

lemma node_labels_distinct:
  assumes dc: "distinct (map code all_orgs)" and dl: "distinct (map preferredLabel all_orgs)"
  shows "distinct (map (\<lambda>e. fst (snd e)) (parent_children all_orgs all_orgs))"
proof -
  let ?pco = "parent_children all_orgs all_orgs"
  have inv: "nodes_inv all_orgs all_orgs ?pco" by (rule nodes_inv_parent_children)
  then have dk: "distinct (map fst ?pco)" by (simp add: nodes_inv_def)
  then have d: "distinct ?pco" by (simp add: distinct_map)
  have "inj_on (\<lambda>e. fst (snd e)) (set ?pco)"
  proof (rule inj_onI)
    fix e e' assume e: "e \<in> set ?pco" and e': "e' \<in> set ?pco"
      and eq: "fst (snd e) = fst (snd e')"
    obtain c l cs where E: "e = (c, l, cs)" by (cases e)
    obtain c' l' cs' where E': "e' = (c', l', cs')" by (cases e')
    from eq E E' have ll: "l' = l" by simp
    from nodes_inv_entry[OF inv e[unfolded E]]
    obtain y where y: "y \<in> set all_orgs" "code y = c" "preferredLabel y = l" by blast
    from nodes_inv_entry[OF inv e'[unfolded E']]
    obtain y' where y': "y' \<in> set all_orgs" "code y' = c'" "preferredLabel y' = l'" by blast
    from dl have "inj_on preferredLabel (set all_orgs)" by (simp add: distinct_map)
    with y y' ll have "y = y'" by (auto dest: inj_onD)
    with y y' have "c = c'" by simp
    with dk e e' E E' show "e = e'" by (auto dest: eq_key_imp_eq_value)
  qed
  with d show ?thesis by (simp add: distinct_map)
qed

lemma pairs_supset:
  assumes dc: "distinct (map code all_orgs)" and dl: "distinct (map preferredLabel all_orgs)"
    and y: "y \<in> set all_orgs" and z: "z \<in> set all_orgs"
    and sub: "subOrganizationOf z = Some (code y)"
  shows "(preferredLabel y, preferredLabel z) \<in> set (hierarchy_pairs (fetch_hierarchy all_orgs))"
proof -
  let ?pco = "parent_children all_orgs all_orgs"
  have inv: "nodes_inv all_orgs all_orgs ?pco" by (rule nodes_inv_parent_children)
  from y have "code y \<in> org_codes all_orgs" by (auto simp: org_codes_def)
  from nodes_inv_registered[OF inv z sub this]
  obtain l cs where e: "(code y, l, cs) \<in> set ?pco" by blast
  from nodes_inv_entry[OF inv e]
  obtain y' where y': "y' \<in> set all_orgs" "code y' = code y" "preferredLabel y' = l"
    and cs: "cs = map preferredLabel (filter (\<lambda>z. subOrganizationOf z = Some (code y)) all_orgs)"
    by blast
  from dc have "inj_on code (set all_orgs)" by (simp add: distinct_map)
  with y y' have "y' = y" by (auto dest: inj_onD)
  with y' have l: "l = preferredLabel y" by simp
  from cs z sub have ch: "preferredLabel z \<in> set cs" by auto
  from hierarchy_of_lookup[OF node_labels_distinct[OF dc dl] e]
  have "(l, cs) \<in> set (fetch_hierarchy all_orgs)" by (simp add: fetch_hierarchy_def)
  with ch l show ?thesis by (auto simp: set_hierarchy_pairs)
qed

lemma pairs_eq:
  assumes dc: "distinct (map code all_orgs)" and dl: "distinct (map preferredLabel all_orgs)"
  shows "set (hierarchy_pairs (fetch_hierarchy all_orgs))
     = {(preferredLabel y, preferredLabel z) | y z.
          y \<in> set all_orgs \<and> z \<in> set all_orgs \<and> subOrganizationOf z = Some (code y)}"
  using pairs_subset[of all_orgs] pairs_supset[OF dc dl] by blast

lemma children_distinct:
  assumes dl: "distinct (map preferredLabel all_orgs)"
    and e: "(parent, children) \<in> set (fetch_hierarchy all_orgs)"
  shows "distinct children"
proof -
  from e obtain c where "(c, parent, children) \<in> set (parent_children all_orgs all_orgs)"
    unfolding fetch_hierarchy_def by (blast dest: hierarchy_of_entry)
  from nodes_inv_entry[OF nodes_inv_parent_children this]
  have "children = map preferredLabel (filter (\<lambda>z. subOrganizationOf z = Some c) all_orgs)"
    by blast
  with dl show ?thesis by (simp add: distinct_map_filter)
qed

lemma distinct_count_le_1: "distinct xs \<Longrightarrow> count_list xs a \<le> 1"
  by (induction xs) auto

lemmas hierarchy_defs =
  fetch_hierarchy_def parent_children_def hierarchy_of_def hierarchy_step_def find_parent_def




text \<open>
  Claim C2, as the code has it. For records with pairwise distinct codes and pairwise
  distinct labels, the hierarchy of a list and the hierarchy of its reverse have the same
  set of (parent name, child name) pairs, and a record's name occurs at most once among the
  children of a parent.
\<close>

theorem hierarchy_order_independent:
  assumes "distinct (map code all_orgs)" and "distinct (map preferredLabel all_orgs)"
  shows "set (hierarchy_pairs (fetch_hierarchy all_orgs))
           = set (hierarchy_pairs (fetch_hierarchy (rev all_orgs))) \<and>
         (\<forall>(parent, children) \<in> set (fetch_hierarchy all_orgs).
            \<forall>r \<in> set all_orgs. count_list children (preferredLabel r) \<le> 1)"
proof
  from assms have "distinct (map code (rev all_orgs))"
    and "distinct (map preferredLabel (rev all_orgs))"
    by (simp_all add: rev_map[symmetric])
  from pairs_eq[OF this] pairs_eq[OF assms]
  show "set (hierarchy_pairs (fetch_hierarchy all_orgs))
           = set (hierarchy_pairs (fetch_hierarchy (rev all_orgs)))"
    by simp
next
  show "\<forall>(parent, children) \<in> set (fetch_hierarchy all_orgs).
            \<forall>r \<in> set all_orgs. count_list children (preferredLabel r) \<le> 1"
  proof (clarify)
    fix parent children r
    assume "(parent, children) \<in> set (fetch_hierarchy all_orgs)"
    from children_distinct[OF assms(2) this] have "distinct children" .
    then show "count_list children (preferredLabel r) \<le> 1"
      by (rule distinct_count_le_1)
  qed
qed

theorem hierarchy_order_independent_witness:
  "distinct (map code
       [\<lparr>code = ''1'', preferredLabel = ''P'', subOrganizationOf = None\<rparr>,
        \<lparr>code = ''2'', preferredLabel = ''C'', subOrganizationOf = Some ''1''\<rparr>]) \<and>
   distinct (map preferredLabel
       [\<lparr>code = ''1'', preferredLabel = ''P'', subOrganizationOf = None\<rparr>,
        \<lparr>code = ''2'', preferredLabel = ''C'', subOrganizationOf = Some ''1''\<rparr>]) \<and>
   set (hierarchy_pairs (fetch_hierarchy
       [\<lparr>code = ''1'', preferredLabel = ''P'', subOrganizationOf = None\<rparr>,
        \<lparr>code = ''2'', preferredLabel = ''C'', subOrganizationOf = Some ''1''\<rparr>]))
     = set (hierarchy_pairs (fetch_hierarchy (rev
       [\<lparr>code = ''1'', preferredLabel = ''P'', subOrganizationOf = None\<rparr>,
        \<lparr>code = ''2'', preferredLabel = ''C'', subOrganizationOf = Some ''1''\<rparr>])))"
proof -
  have dc: "distinct (map code
       [\<lparr>code = ''1'', preferredLabel = ''P'', subOrganizationOf = None\<rparr>,
        \<lparr>code = ''2'', preferredLabel = ''C'', subOrganizationOf = Some ''1''\<rparr>])"
    by simp
  have dl: "distinct (map preferredLabel
       [\<lparr>code = ''1'', preferredLabel = ''P'', subOrganizationOf = None\<rparr>,
        \<lparr>code = ''2'', preferredLabel = ''C'', subOrganizationOf = Some ''1''\<rparr>])"
    by simp
  from hierarchy_order_independent[OF dc dl] dc dl show ?thesis by blast
qed

text \<open>
  Claim C2 as stated fails. With two roots of the same label, the node stored last under
  the label wins, and the reverse list stores the other one last; with two children of the
  same label under one parent, the label is in the children list twice; with two records
  of the same code, the parent of a child is the one that comes first in the list.
\<close>

theorem hierarchy_order_counterexample:
  "set (hierarchy_pairs (fetch_hierarchy
       [\<lparr>code = ''2'', preferredLabel = ''P'', subOrganizationOf = None\<rparr>,
        \<lparr>code = ''1'', preferredLabel = ''P'', subOrganizationOf = None\<rparr>,
        \<lparr>code = ''3'', preferredLabel = ''C'', subOrganizationOf = Some ''1''\<rparr>,
        \<lparr>code = ''4'', preferredLabel = ''C'', subOrganizationOf = Some ''1''\<rparr>]))
     \<noteq> set (hierarchy_pairs (fetch_hierarchy (rev
       [\<lparr>code = ''2'', preferredLabel = ''P'', subOrganizationOf = None\<rparr>,
        \<lparr>code = ''1'', preferredLabel = ''P'', subOrganizationOf = None\<rparr>,
        \<lparr>code = ''3'', preferredLabel = ''C'', subOrganizationOf = Some ''1''\<rparr>,
        \<lparr>code = ''4'', preferredLabel = ''C'', subOrganizationOf = Some ''1''\<rparr>]))) \<and>
   fetch_hierarchy
       [\<lparr>code = ''2'', preferredLabel = ''P'', subOrganizationOf = None\<rparr>,
        \<lparr>code = ''1'', preferredLabel = ''P'', subOrganizationOf = None\<rparr>,
        \<lparr>code = ''3'', preferredLabel = ''C'', subOrganizationOf = Some ''1''\<rparr>,
        \<lparr>code = ''4'', preferredLabel = ''C'', subOrganizationOf = Some ''1''\<rparr>]
     = [(''P'', [''C'', ''C''])] \<and>
   set (hierarchy_pairs (fetch_hierarchy
       [\<lparr>code = ''1'', preferredLabel = ''A'', subOrganizationOf = None\<rparr>,
        \<lparr>code = ''1'', preferredLabel = ''B'', subOrganizationOf = None\<rparr>,
        \<lparr>code = ''2'', preferredLabel = ''C'', subOrganizationOf = Some ''1''\<rparr>]))
     \<noteq> set (hierarchy_pairs (fetch_hierarchy (rev
       [\<lparr>code = ''1'', preferredLabel = ''A'', subOrganizationOf = None\<rparr>,
        \<lparr>code = ''1'', preferredLabel = ''B'', subOrganizationOf = None\<rparr>,
        \<lparr>code = ''2'', preferredLabel = ''C'', subOrganizationOf = Some ''1''\<rparr>])))"
  by (simp add: hierarchy_defs)

section \<open>The idempotent write rule: proofs\<close>

lemma str_in_sublist: "str_in sub s \<longleftrightarrow> sublist sub s"
  by (induction s) (simp_all add: sublist_Cons_right)

lemma replace_nonempty_contains:
  "old \<noteq> [] \<Longrightarrow> sublist old s \<Longrightarrow> sublist new (replace_nonempty old new s)"
proof (induction old new s rule: replace_nonempty.induct)
  case (1 old new)
  then show ?case by simp
next
  case (2 old new c cs)
  show ?case
  proof (cases "prefix old (c # cs)")
    case True
    then show ?thesis by simp
  next
    case False
    with "2.prems" have "sublist old cs" by (simp add: sublist_Cons_right)
    with "2.IH"(2)[OF False "2.prems"(1)] have "sublist new (replace_nonempty old new cs)" by simp
    with False show ?thesis by (simp add: sublist_Cons_right)
  qed
qed

lemma str_replace_contains:
  assumes "str_in old s" shows "str_in new (str_replace s old new)"
proof (cases "old = []")
  case True
  then show ?thesis by (simp add: str_replace_def str_in_sublist)
next
  case False
  with assms show ?thesis
    by (simp add: str_replace_def str_in_sublist replace_nonempty_contains)
qed

lemma str_in_trans: "str_in a b \<Longrightarrow> str_in b c \<Longrightarrow> str_in a c"
  unfolding str_in_sublist by (rule sublist_order.order.trans)

text \<open>
  Claim C3, as the code has it. Applying \<open>_add_text_to_page\<close> twice to a page, with the same
  text and the same optional replace marker, leaves the page text that one application
  leaves, provided that, when a replace marker is given, the text to ensure contains the
  category prefix and the marker does not occur in the page text left by the first
  application. Without a replace marker this holds for every page and every text.
\<close>

theorem add_text_idempotent:
  assumes "\<forall>r. replace_text = Some r \<longrightarrow>
             str_in CATEGORY_PREFIX text \<and> \<not> str_in r (page_text (add_text p text replace_text))"
  shows "page_text (add_text (add_text p text replace_text) text replace_text)
           = page_text (add_text p text replace_text)"
proof (cases replace_text)
  case None
  then show ?thesis
    by (simp add: add_text_def new_text_for_def edit_def text_of_def)
next
  case (Some r)
  with assms have pre: "str_in CATEGORY_PREFIX text"
    and nor: "\<not> str_in r (page_text (add_text p text (Some r)))" by auto
  show ?thesis
  proof (cases "page_exists p \<and> str_in r (page_text p)")
    case True
    then have one: "add_text p text (Some r) = edit p (str_replace (page_text p) r text)"
      by (simp add: add_text_def new_text_for_def text_of_def)
    from True have "str_in text (str_replace (page_text p) r text)"
      by (simp add: str_replace_contains)
    with pre have "str_in CATEGORY_PREFIX (str_replace (page_text p) r text)"
      by (rule str_in_trans)
    moreover from nor one have "\<not> str_in r (str_replace (page_text p) r text)"
      by (simp add: edit_def)
    ultimately have "new_text_for (edit p (str_replace (page_text p) r text)) text (Some r) = None"
      by (simp add: new_text_for_def edit_def text_of_def)
    with one Some show ?thesis by (simp add: add_text_def)
  next
    case False
    show ?thesis
    proof (cases "new_text_for p text (Some r)")
      case None
      with Some show ?thesis by (simp add: add_text_def)
    next
      case S: (Some nt)
      with False have nt: "nt = text"
        by (auto simp: new_text_for_def text_of_def Let_def split: if_splits)
      with S have one: "add_text p text (Some r) = edit p text" by (simp add: add_text_def)
      with nor have "\<not> str_in r text" by (simp add: edit_def)
      with pre have "new_text_for (edit p text) text (Some r) = None"
        by (simp add: new_text_for_def edit_def text_of_def)
      with one Some show ?thesis by (simp add: add_text_def)
    qed
  qed
qed

theorem add_text_idempotent_witness:
  "page_text (add_text (add_text
       \<lparr>page_exists = True, page_text = ''[[Category:Old]] text'', edits = [], deletions = 0\<rparr>
       ''[[Category:New]]'' (Some ''[[Category:Old]]'')) ''[[Category:New]]'' (Some ''[[Category:Old]]''))
   = page_text (add_text
       \<lparr>page_exists = True, page_text = ''[[Category:Old]] text'', edits = [], deletions = 0\<rparr>
       ''[[Category:New]]'' (Some ''[[Category:Old]]''))"
  using add_text_idempotent
    [of "Some ''[[Category:Old]]''" "''[[Category:New]]''"
        "\<lparr>page_exists = True, page_text = ''[[Category:Old]] text'', edits = [], deletions = 0\<rparr>"]
  by (simp add: add_text_def new_text_for_def edit_def text_of_def str_replace_def
        CATEGORY_PREFIX_def)

text \<open>
  Claim C3 as stated fails: the first application replaces the marker, and the second
  finds neither the marker nor a category prefix and overwrites the page with the text.
\<close>

theorem add_text_twice_counterexample:
  "page_text (add_text (add_text
       \<lparr>page_exists = True, page_text = ''hello A'', edits = [], deletions = 0\<rparr>
       ''B'' (Some ''A'')) ''B'' (Some ''A''))
   \<noteq> page_text (add_text
       \<lparr>page_exists = True, page_text = ''hello A'', edits = [], deletions = 0\<rparr>
       ''B'' (Some ''A''))"
  by (simp add: add_text_def new_text_for_def edit_def text_of_def str_replace_def
        CATEGORY_PREFIX_def)

text \<open>
  Claim C9. For an existing page whose text contains the category prefix and does not
  contain the replace marker (or with no marker given), \<open>_add_text_to_page\<close> computes no new
  text and the store is left as it is: no page changes and no edit is recorded.
\<close>

theorem categorized_page_untouched:
  assumes "page_exists (pages site ref)"
    and "str_in CATEGORY_PREFIX (page_text (pages site ref))"
    and "\<forall>r. replace_text = Some r \<longrightarrow> \<not> str_in r (page_text (pages site ref))"
  shows "new_text_for (pages site ref) text replace_text = None \<and>
         add_text_to_page site (Some ref) text replace_text = site"
proof -
  from assms have n: "new_text_for (pages site ref) text replace_text = None"
    by (cases replace_text) (simp_all add: new_text_for_def text_of_def)
  then have "add_text (pages site ref) text replace_text = pages site ref"
    by (simp add: add_text_def)
  then have "add_text_to_page site (Some ref) text replace_text = site"
    by (simp add: add_text_to_page_def)
  with n show ?thesis by simp
qed

theorem categorized_page_untouched_witness:
  "add_text_to_page
     \<lparr>pages = (\<lambda>ref. \<lparr>page_exists = True, page_text = ''[[Category:A]] text'', edits = [], deletions = 0\<rparr>),
      lookup_fails = (\<lambda>ref. False)\<rparr>
     (Some (CategoryRef ''A'')) ''[[Category:B]]'' (Some ''[[Category:C]]'')
   = \<lparr>pages = (\<lambda>ref. \<lparr>page_exists = True, page_text = ''[[Category:A]] text'', edits = [], deletions = 0\<rparr>),
      lookup_fails = (\<lambda>ref. False)\<rparr>"
  using categorized_page_untouched
    [of "\<lparr>pages = (\<lambda>ref. \<lparr>page_exists = True, page_text = ''[[Category:A]] text'', edits = [], deletions = 0\<rparr>),
      lookup_fails = (\<lambda>ref. False)\<rparr>" "CategoryRef ''A''" "Some ''[[Category:C]]''" "''[[Category:B]]''"]
  by (simp add: CATEGORY_PREFIX_def)

text \<open>
  Claim C10. When the lookup of a page raises, \<open>_get_site_page\<close> returns \<open>None\<close>, and
  \<open>_add_text_to_page\<close> with this handle returns the store as it is: nothing is written and
  nothing is raised.
\<close>

theorem failed_lookup_no_write:
  assumes "lookup_fails site (if is_category then CategoryRef name else PageRef name)"
  shows "get_site_page site name is_category = None \<and>
         add_text_to_page site (get_site_page site name is_category) text replace_text = site"
  using assms by (simp add: get_site_page_def add_text_to_page_def Let_def)

theorem failed_lookup_no_write_witness:
  "get_site_page
     \<lparr>pages = (\<lambda>ref. \<lparr>page_exists = False, page_text = [], edits = [], deletions = 0\<rparr>),
      lookup_fails = (\<lambda>ref. True)\<rparr> ''A'' True = None \<and>
   add_text_to_page
     \<lparr>pages = (\<lambda>ref. \<lparr>page_exists = False, page_text = [], edits = [], deletions = 0\<rparr>),
      lookup_fails = (\<lambda>ref. True)\<rparr>
     (get_site_page
        \<lparr>pages = (\<lambda>ref. \<lparr>page_exists = False, page_text = [], edits = [], deletions = 0\<rparr>),
         lookup_fails = (\<lambda>ref. True)\<rparr> ''A'' True)
     ''[[Category:B]]'' None
   = \<lparr>pages = (\<lambda>ref. \<lparr>page_exists = False, page_text = [], edits = [], deletions = 0\<rparr>),
      lookup_fails = (\<lambda>ref. True)\<rparr>"
  by (rule failed_lookup_no_write) simp

section \<open>Template values: proofs\<close>

















section \<open>The page-text merge: proofs\<close>












text \<open>
  Claim C8, as the code has it. When the page is updated (it exists, or \<open>force_create\<close> is
  set) and its prior text is empty, the leftover text is empty and the page text becomes
  the rendered template followed by one newline character, for every rendered template.
\<close>

theorem merge_into_empty_page:
  assumes "text_of p = []" and "force_create \<or> page_exists p"
  shows "page_text_leftovers (text_of p) = [] \<and>
         update_page force_create (Some p) new_template_text
           = Some (edit p (new_template_text @ [CHR 0x0A])) \<and>
         page_text (edit p (new_template_text @ [CHR 0x0A])) = new_template_text @ [CHR 0x0A]"
  using assms
  by (auto simp: update_page_def new_page_text_def page_text_leftovers_def strip_def edit_def)

theorem merge_into_empty_page_witness:
  "update_page False
      (Some \<lparr>page_exists = True, page_text = [], edits = [], deletions = 0\<rparr>) ''R''
   = Some (edit \<lparr>page_exists = True, page_text = [], edits = [], deletions = 0\<rparr>
             (''R'' @ [CHR 0x0A]))"
  using merge_into_empty_page
    [of "\<lparr>page_exists = True, page_text = [], edits = [], deletions = 0\<rparr>" False "''R''"]
  by (simp add: text_of_def)

text \<open>
  Claim C8 as stated fails: the page text is not the rendered template itself, it ends with
  the newline that the merge always puts after the template.
\<close>

theorem merge_into_empty_page_counterexample:
  "map_option page_text (update_page False
      (Some \<lparr>page_exists = True, page_text = [], edits = [], deletions = 0\<rparr>)
      (''{{'' @ TEMPLATE_NAME @ ''|gov_org_code=1}}''))
   \<noteq> Some (''{{'' @ TEMPLATE_NAME @ ''|gov_org_code=1}}'')"
  by (simp add: update_page_def new_page_text_def page_text_leftovers_def strip_def edit_def text_of_def)

section \<open>Status translation: proofs\<close>







section \<open>The pruner: proofs\<close>







end
